theory Spec2Isabelle
  imports Main
begin

section \<open>The shift model of \<open>optimize_shifts\<close>\<close>

text \<open>
  \<open>optimize_shifts(exercise, drivers)\<close> builds one 0/1 variable \<open>shifts[(j,i)]\<close> per
  driver \<open>j\<close> and timeslot \<open>i\<close>, posts three families of constraints, and calls the
  constraint solver twice on the decision builder
  \<open>Phase(s_flat, CHOOSE_FIRST_UNBOUND, ASSIGN_MIN_VALUE)\<close>.

  The demand forecast is the list read from the JSON file; \<open>slots = len(demand)\<close>.
  Python's \<open>range(drivers)\<close> is empty for \<open>drivers \<le> 0\<close>, which is \<open>[0..<nat drivers]\<close>.
  A complete assignment is the list of the values of \<open>s_flat\<close>, in the order of \<open>s_flat\<close>
  (driver-major, then slot), so the variable \<open>shifts[(j,i)]\<close> sits at position
  \<open>j * slots + i\<close>. With \<open>num_vals = 2\<close> every variable is an \<open>IntVar(0, 1)\<close>: its
  values are 0 (not working) and 1 (working).
\<close>

definition min_h :: int where
  "min_h = 4"

definition max_h :: int where
  "max_h = 10"

definition s_flat :: "nat \<Rightarrow> nat \<Rightarrow> (nat \<times> nat) list" where
  "s_flat drivers slots = concat (map (\<lambda>j. map (\<lambda>i. (j, i)) [0..<slots]) [0..<drivers])"

definition shifts :: "nat \<Rightarrow> int list \<Rightarrow> nat \<Rightarrow> nat \<Rightarrow> int" where
  "shifts slots A j i = A ! (j * slots + i)"

subsection \<open>Constraints\<close>

text \<open>Demand by timeslot: \<open>Sum([shifts[(j,i)] for j in range(drivers)]) >= demand[i]\<close>.\<close>

definition demand_constraint :: "int list \<Rightarrow> nat \<Rightarrow> int list \<Rightarrow> bool" where
  "demand_constraint demand drivers A \<longleftrightarrow>
     list_all (\<lambda>i. demand ! i \<le> sum_list (map (\<lambda>j. shifts (length demand) A j i) [0..<drivers]))
       [0..<length demand]"

text \<open>
  The right-hand side \<open>demand[i]\<close> goes through the solver's Python wrapper, which takes
  a signed 64-bit integer: on a value outside that range the comparison raises
  \<open>TypeError\<close>, inside the loop that posts the demand constraints and so before any
  search. The loop posts every constraint exactly when every demand value is in range.
\<close>

datatype error = TypeError

definition int64 :: "int \<Rightarrow> bool" where
  "int64 d \<longleftrightarrow> - 9223372036854775808 \<le> d \<and> d \<le> 9223372036854775807"

text \<open>Maximum and minimum duration of shifts per driver.\<close>

definition duration_constraint :: "nat \<Rightarrow> nat \<Rightarrow> int list \<Rightarrow> bool" where
  "duration_constraint slots drivers A \<longleftrightarrow>
     list_all (\<lambda>j. min_h \<le> sum_list (map (\<lambda>i. shifts slots A j i) [0..<slots])
                \<and> sum_list (map (\<lambda>i. shifts slots A j i) [0..<slots]) \<le> max_h)
       [0..<drivers]"

text \<open>
  Consecutive hours: \<open>Max(x == y, y == z) == 1\<close> on the reified equalities, over the
  windows \<open>(i, i+1, i+2)\<close> for \<open>i in range(slots-2)\<close> and \<open>(i, i+2, i+4)\<close> for
  \<open>i in range(slots-4)\<close>. Both ranges are empty when the subtraction is not positive,
  as the truncating subtraction of \<open>nat\<close> makes them here.
\<close>

definition is_equal :: "int \<Rightarrow> int \<Rightarrow> int" where
  "is_equal x y = (if x = y then 1 else 0)"

definition window :: "int \<Rightarrow> int \<Rightarrow> int \<Rightarrow> bool" where
  "window x y z \<longleftrightarrow> max (is_equal x y) (is_equal y z) = 1"

definition consecutive_constraint :: "nat \<Rightarrow> nat \<Rightarrow> int list \<Rightarrow> bool" where
  "consecutive_constraint slots drivers A \<longleftrightarrow>
     list_all (\<lambda>j.
         list_all (\<lambda>i. window (shifts slots A j i) (shifts slots A j (i + 1)) (shifts slots A j (i + 2)))
           [0..<slots - 2]
       \<and> list_all (\<lambda>i. window (shifts slots A j i) (shifts slots A j (i + 2)) (shifts slots A j (i + 4)))
           [0..<slots - 4])
       [0..<drivers]"

definition constraints :: "int list \<Rightarrow> nat \<Rightarrow> int list \<Rightarrow> bool" where
  "constraints demand drivers A \<longleftrightarrow>
     demand_constraint demand drivers A
     \<and> duration_constraint (length demand) drivers A
     \<and> consecutive_constraint (length demand) drivers A"

text \<open>The objective: \<open>obj_var = Sum(s_flat)\<close>.\<close>

definition obj_var :: "int list \<Rightarrow> int" where
  "obj_var A = sum_list A"

subsection \<open>The two searches\<close>

text \<open>
  The decision builder takes the first unbound variable of \<open>s_flat\<close> and tries its
  minimum value first: a depth-first traversal of the binary tree over \<open>s_flat\<close>, value
  \<open>0\<close> before value \<open>1\<close>. The solver's propagation only cuts subtrees that hold no
  solution, so the solutions are met in the order of the plain traversal, which is
  what is modelled; a leaf is a solution when the posted constraints hold of it.

  The time limit of 15000 ms is a wall-clock limit, renewed for each search. It is
  modelled as the number of tree nodes the search may still enter (checked at each
  node); what the limit allows is a parameter of each search.
\<close>

datatype outcome = Solution "int list" | Failed | LimitReached

text \<open>
  \<open>Solve(db, [time_limit_ms, collector])\<close>: without an objective monitor nothing asks
  the search to go on after a solution, so it ends at the first one.
\<close>

fun first_solution :: "(int list \<Rightarrow> bool) \<Rightarrow> nat \<Rightarrow> int list \<Rightarrow> nat \<Rightarrow> outcome \<times> nat" where
  "first_solution ok 0 pre t =
     (if t = 0 then (LimitReached, 0)
      else if ok pre then (Solution pre, t - 1)
      else (Failed, t - 1))"
| "first_solution ok (Suc k) pre t =
     (if t = 0 then (LimitReached, 0)
      else (case first_solution ok k (pre @ [0]) (t - 1) of
              (Failed, t') \<Rightarrow> first_solution ok k (pre @ [1]) t'
            | r \<Rightarrow> r))"

text \<open>
  \<open>Solve(db, [obj_monitor, time_limit_ms, collector])\<close> with
  \<open>obj_monitor = Minimize(obj_var, 1)\<close>: after a solution of objective \<open>b\<close> the search
  goes on and accepts only leaves of objective at most \<open>b - 1\<close>. The
  \<open>FirstSolutionCollector\<close> stores the first accepted solution, with its objective
  value, and ignores the later ones.
\<close>

record monitors =
  best :: "int option"
  collected :: "(int list \<times> int) option"
  accepted :: "int list list"

definition at_solution :: "int list \<Rightarrow> monitors \<Rightarrow> monitors" where
  "at_solution A m =
     m\<lparr> best := Some (obj_var A),
        collected := (case collected m of None \<Rightarrow> Some (A, obj_var A) | Some c \<Rightarrow> Some c),
        accepted := accepted m @ [A] \<rparr>"

definition improves :: "int list \<Rightarrow> monitors \<Rightarrow> bool" where
  "improves A m = (case best m of None \<Rightarrow> True | Some b \<Rightarrow> obj_var A \<le> b - 1)"

fun minimize :: "(int list \<Rightarrow> bool) \<Rightarrow> nat \<Rightarrow> int list \<Rightarrow> monitors \<Rightarrow> nat \<Rightarrow> bool \<times> monitors \<times> nat" where
  "minimize ok 0 pre m t =
     (if t = 0 then (False, m, 0)
      else if ok pre \<and> improves pre m then (True, at_solution pre m, t - 1)
      else (True, m, t - 1))"
| "minimize ok (Suc k) pre m t =
     (if t = 0 then (False, m, 0)
      else (case minimize ok k (pre @ [0]) m (t - 1) of
              (True, m', t') \<Rightarrow> minimize ok k (pre @ [1]) m' t'
            | r \<Rightarrow> r))"

definition enter_search :: "monitors" where
  "enter_search = \<lparr> best = None, collected = None, accepted = [] \<rparr>"

subsection \<open>The program\<close>

text \<open>
  A demand value outside the 64-bit range ends the run with \<open>TypeError\<close> while the model
  is built. Otherwise both searches run. The result of the first search is thrown
  away; the second search re-enters the collector (which empties it) and its truth
  value selects the branch. In the \<open>Solved\<close> branch the program prints
  \<open>collector.ObjectiveValue(0)\<close>, \<open>collector.SolutionCount()\<close> and the rows
  \<open>collector.Value(0, shifts[(j, i)])\<close>.
\<close>

datatype result = Solved (assignment: "int list list") (objective_value: int) (solution_count: nat)
  | NoSolutionFound
  | Raised error

definition first_search :: "nat \<Rightarrow> int list \<Rightarrow> nat \<Rightarrow> monitors" where
  "first_search t1 demand drivers =
     fst (snd (minimize (constraints demand drivers) (length (s_flat drivers (length demand))) []
                 enter_search t1))"

text \<open>
  The second search: entering it empties the collector, whatever the first search
  left there; \<open>Solve\<close> returns whether a solution was reached, and the collector then
  holds that solution with the value of \<open>obj_var\<close> in it.
\<close>

definition second_search ::
  "nat \<Rightarrow> int list \<Rightarrow> nat \<Rightarrow> (int list \<times> int) option \<Rightarrow> bool \<times> (int list \<times> int) option" where
  "second_search t2 demand drivers c =
     (case fst (first_solution (constraints demand drivers)
                 (length (s_flat drivers (length demand))) [] t2) of
        Solution A \<Rightarrow> (True, Some (A, obj_var A))
      | Failed \<Rightarrow> (False, None)
      | LimitReached \<Rightarrow> (False, None))"

definition SolutionCount :: "(int list \<times> int) option \<Rightarrow> nat" where
  "SolutionCount c = (case c of None \<Rightarrow> 0 | Some s \<Rightarrow> 1)"

definition rows :: "nat \<Rightarrow> nat \<Rightarrow> int list \<Rightarrow> int list list" where
  "rows drivers slots A = map (\<lambda>j. map (\<lambda>i. shifts slots A j i) [0..<slots]) [0..<drivers]"

definition optimize_shifts :: "nat \<Rightarrow> nat \<Rightarrow> int list \<Rightarrow> int \<Rightarrow> result" where
  "optimize_shifts t1 t2 demand drivers =
     (if \<not> list_all int64 demand then Raised TypeError
      else case second_search t2 demand (nat drivers)
             (collected (first_search t1 demand (nat drivers))) of
        (True, Some (A, obj)) \<Rightarrow>
          Solved (rows (nat drivers) (length demand) A) obj
            (SolutionCount (snd (second_search t2 demand (nat drivers)
               (collected (first_search t1 demand (nat drivers))))))
      | r \<Rightarrow> NoSolutionFound)"

text \<open>
  The feasible complete assignments the run visits: those the first search accepts,
  then the one the second search ends at; none when the run ends before any search.
\<close>

definition visited :: "nat \<Rightarrow> nat \<Rightarrow> int list \<Rightarrow> int \<Rightarrow> int list list" where
  "visited t1 t2 demand drivers =
     (if \<not> list_all int64 demand then []
      else accepted (first_search t1 demand (nat drivers))
        @ (case second_search t2 demand (nat drivers)
                  (collected (first_search t1 demand (nat drivers))) of
             (True, Some (A, obj)) \<Rightarrow> [A]
           | r \<Rightarrow> []))"

subsection \<open>Notions the properties are stated with\<close>

text \<open>A complete assignment gives every variable of \<open>s_flat\<close> a value of its domain.\<close>

definition complete :: "nat \<Rightarrow> int list \<Rightarrow> bool" where
  "complete n A \<longleftrightarrow> length A = n \<and> set A \<subseteq> {0, 1}"

text \<open>The order of the search on complete assignments: position by position, 0 before 1.\<close>

fun lex_le :: "int list \<Rightarrow> int list \<Rightarrow> bool" where
  "lex_le [] ys = True"
| "lex_le (x # xs) [] = False"
| "lex_le (x # xs) (y # ys) = (x < y \<or> (x = y \<and> lex_le xs ys))"

text \<open>The number of maximal blocks of 1 in a row; one shift is one block.\<close>

fun blocks :: "int \<Rightarrow> int list \<Rightarrow> nat" where
  "blocks prev [] = 0"
| "blocks prev (x # xs) = (if x = 1 \<and> prev \<noteq> 1 then 1 else 0) + blocks x xs"

definition single_shift :: "int list \<Rightarrow> bool" where
  "single_shift r \<longleftrightarrow> blocks 0 r = 1"

section \<open>The depth-first search\<close>

text \<open>
  What the search without objective returns: a failure means that no complete
  extension of the prefix satisfies the constraints; a solution is the least such
  extension in the order of the search. More time does not change a search that
  ended within its limit, and a limit of \<open>2 ^ (k + 1)\<close> nodes is never reached
  over \<open>k\<close> variables.
\<close>

lemma first_solution_Failed:
  "first_solution ok k pre t = (Failed, t') \<Longrightarrow> complete k s \<Longrightarrow> \<not> ok (pre @ s)"
proof (induction k arbitrary: pre t t' s)
  case 0
  then show ?case by (auto simp: complete_def split: if_splits)
next
  case (Suc k)
  from Suc.prems(2) obtain x s' where s: "s = x # s'" and x: "x = 0 \<or> x = 1" and s': "complete k s'"
    by (cases s) (auto simp: complete_def)
  from Suc.prems(1) obtain t0 where
    a: "first_solution ok k (pre @ [0]) (t - 1) = (Failed, t0)" and
    b: "first_solution ok k (pre @ [1]) t0 = (Failed, t')"
    by (auto split: if_splits prod.splits outcome.splits)
  from Suc.IH[OF a s'] Suc.IH[OF b s'] x s show ?case by auto
qed

lemma first_solution_Solution:
  "first_solution ok k pre t = (Solution A, t') \<Longrightarrow>
     \<exists>s. A = pre @ s \<and> complete k s \<and> ok A \<and> (\<forall>s'. complete k s' \<and> ok (pre @ s') \<longrightarrow> lex_le s s')"
proof (induction k arbitrary: pre t t' A)
  case 0
  then show ?case by (auto simp: complete_def split: if_splits)
next
  case (Suc k)
  from Suc.prems have t: "t \<noteq> 0" by (auto split: if_splits)
  obtain r t0 where a: "first_solution ok k (pre @ [0]) (t - 1) = (r, t0)" by force
  show ?case
  proof (cases r)
    case (Solution B)
    with a Suc.prems t have AB: "A = B" by simp
    from Suc.IH[OF a[unfolded Solution]] obtain s where
      s: "B = (pre @ [0]) @ s" "complete k s" "ok B"
         "\<forall>s'. complete k s' \<and> ok ((pre @ [0]) @ s') \<longrightarrow> lex_le s s'" by blast
    have "\<forall>u. complete (Suc k) u \<and> ok (pre @ u) \<longrightarrow> lex_le (0 # s) u"
    proof (intro allI impI)
      fix u assume u: "complete (Suc k) u \<and> ok (pre @ u)"
      then obtain x u' where u': "u = x # u'" "x = 0 \<or> x = 1" "complete k u'"
        by (cases u) (auto simp: complete_def)
      with u s(4) show "lex_le (0 # s) u" by auto
    qed
    with s AB show ?thesis
      by (intro exI[of _ "0 # s"]) (auto simp: complete_def)
  next
    case Failed
    with a Suc.prems t have b: "first_solution ok k (pre @ [1]) t0 = (Solution A, t')" by simp
    from Suc.IH[OF b] obtain s where
      s: "A = (pre @ [1]) @ s" "complete k s" "ok A"
         "\<forall>s'. complete k s' \<and> ok ((pre @ [1]) @ s') \<longrightarrow> lex_le s s'" by blast
    have "\<forall>u. complete (Suc k) u \<and> ok (pre @ u) \<longrightarrow> lex_le (1 # s) u"
    proof (intro allI impI)
      fix u assume u: "complete (Suc k) u \<and> ok (pre @ u)"
      then obtain x u' where u': "u = x # u'" "x = 0 \<or> x = 1" "complete k u'"
        by (cases u) (auto simp: complete_def)
      from first_solution_Failed[OF a[unfolded Failed] u'(3)] u u' have "x = 1" by auto
      with u u' s(4) show "lex_le (1 # s) u" by auto
    qed
    with s show ?thesis
      by (intro exI[of _ "1 # s"]) (auto simp: complete_def)
  next
    case LimitReached
    with a Suc.prems t show ?thesis by simp
  qed
qed

lemma first_solution_more_time:
  "first_solution ok k pre t = (r, t') \<Longrightarrow> r \<noteq> LimitReached \<Longrightarrow>
     first_solution ok k pre (t + d) = (r, t' + d)"
proof (induction k arbitrary: pre t t' r)
  case 0
  then show ?case by (auto split: if_splits)
next
  case (Suc k)
  from Suc.prems have t: "t \<noteq> 0" by (auto split: if_splits)
  obtain r0 t0 where a: "first_solution ok k (pre @ [0]) (t - 1) = (r0, t0)" by force
  from a Suc.prems t have r0: "r0 \<noteq> LimitReached" by (auto split: outcome.splits)
  from Suc.IH[OF a r0] t have a': "first_solution ok k (pre @ [0]) (t + d - 1) = (r0, t0 + d)"
    by simp
  show ?case
  proof (cases r0)
    case (Solution B)
    with a a' Suc.prems t show ?thesis by auto
  next
    case Failed
    with a Suc.prems t have b: "first_solution ok k (pre @ [1]) t0 = (r, t')" by simp
    from Suc.IH[OF b Suc.prems(2)] a' Failed t show ?thesis by simp
  next
    case LimitReached
    with r0 show ?thesis by simp
  qed
qed

lemma first_solution_enough_time:
  "2 ^ Suc k + q \<le> t + 1 \<Longrightarrow>
     \<exists>r t'. first_solution ok k pre t = (r, t') \<and> r \<noteq> LimitReached \<and> q \<le> t'"
proof (induction k arbitrary: pre t q)
  case 0
  then show ?case by auto
next
  case (Suc k)
  have p: "(1::nat) \<le> 2 ^ k" by simp
  from Suc.prems p have t: "t \<noteq> 0" by (cases t) auto
  have "2 ^ Suc k + (2 ^ Suc k + q - 1) \<le> (t - 1) + 1" using Suc.prems t p by simp
  from Suc.IH[OF this, of "pre @ [0]"] obtain r0 t0 where
    a: "first_solution ok k (pre @ [0]) (t - 1) = (r0, t0)" "r0 \<noteq> LimitReached" "2 ^ Suc k + q - 1 \<le> t0"
    by blast
  show ?case
  proof (cases r0)
    case (Solution B)
    have "(0::nat) < 2 ^ Suc k" by simp
    then have "q \<le> 2 ^ Suc k + q - 1" by linarith
    with a(3) have "q \<le> t0" by linarith
    with Solution a t show ?thesis by simp
  next
    case Failed
    have "2 ^ Suc k + q \<le> t0 + 1" using a(3) by simp
    from Suc.IH[OF this, of "pre @ [1]"] a Failed t show ?thesis by simp
  next
    case LimitReached
    with a show ?thesis by simp
  qed
qed


section \<open>Rows of a complete assignment\<close>

text \<open>
  The printed rows are the flat assignment cut into \<open>drivers\<close> pieces of \<open>slots\<close>
  values, so sums over the matrix are sums over the flat list.
\<close>

lemma row_take_drop:
  "j * s + s \<le> length A \<Longrightarrow> map (\<lambda>i. shifts s A j i) [0..<s] = take s (drop (j * s) A)"
  by (rule nth_equalityI) (auto simp: shifts_def)

lemma concat_rows_take:
  "n * s \<le> length A \<Longrightarrow> concat (rows n s A) = take (n * s) A"
proof (induction n)
  case 0
  then show ?case by (simp add: rows_def)
next
  case (Suc n)
  then have le: "n * s + s \<le> length A" by simp
  then have IH: "concat (rows n s A) = take (n * s) A" using Suc.IH by simp
  have "concat (rows (Suc n) s A) = concat (rows n s A) @ map (\<lambda>i. shifts s A n i) [0..<s]"
    by (simp add: rows_def)
  also have "\<dots> = take (n * s) A @ take s (drop (n * s) A)"
    using IH row_take_drop[OF le] by simp
  also have "\<dots> = take (n * s + s) A" by (simp add: take_add)
  finally show ?case by (simp add: add.commute)
qed

lemma sum_list_concat_matrix:
  "sum_list (concat xss) = sum_list (map sum_list (xss :: int list list))"
  by (induction xss) simp_all

lemma concat_rows: "length A = n * s \<Longrightarrow> concat (rows n s A) = A"
  by (simp add: concat_rows_take)

lemma rows_nth: "j < n \<Longrightarrow> i < s \<Longrightarrow> rows n s A ! j ! i = shifts s A j i"
  by (simp add: rows_def)

lemma length_rows: "length (rows n s A) = n"
  by (simp add: rows_def)

lemma sum_rows: "length A = n * s \<Longrightarrow> sum_list (map sum_list (rows n s A)) = sum_list A"
  using concat_rows[of A n s] sum_list_concat_matrix[of "rows n s A"] by simp

lemma window_iff: "window x y z \<longleftrightarrow> x = y \<or> y = z"
  by (auto simp: window_def is_equal_def)

lemma sum_list_lower:
  "(\<And>j. j < n \<Longrightarrow> (c::int) \<le> f j) \<Longrightarrow> int n * c \<le> sum_list (map f [0..<n])"
proof (induction n)
  case 0 then show ?case by simp
next
  case (Suc n)
  then have "int n * c \<le> sum_list (map f [0..<n])" by simp
  moreover have "c \<le> f n" using Suc.prems by simp
  ultimately show ?case by (simp add: algebra_simps)
qed


lemma complete_nth: "complete k A \<Longrightarrow> i < k \<Longrightarrow> A ! i = 0 \<or> A ! i = 1"
  unfolding complete_def using nth_mem by fastforce

lemma duration_sum:
  assumes "duration_constraint s n A" and "length A = n * s"
  shows "int n * min_h \<le> obj_var A"
proof -
  have "int n * min_h \<le> sum_list (map (\<lambda>j. sum_list (map (\<lambda>i. shifts s A j i) [0..<s])) [0..<n])"
    using assms(1) by (intro sum_list_lower) (simp add: duration_constraint_def list_all_iff)
  also have "\<dots> = sum_list (map sum_list (rows n s A))"
    by (simp add: rows_def comp_def)
  also have "\<dots> = sum_list A" using assms(2) by (rule sum_rows)
  finally show ?thesis by (simp add: obj_var_def)
qed

section \<open>What a run returns\<close>

lemma length_s_flat: "length (s_flat drivers slots) = drivers * slots"
  by (induction drivers) (simp_all add: s_flat_def)

lemma optimize_shifts_eq:
  "optimize_shifts t1 t2 demand drivers =
     (if list_all int64 demand then
        (case fst (first_solution (constraints demand (nat drivers)) (nat drivers * length demand) [] t2) of
           Solution A \<Rightarrow> Solved (rows (nat drivers) (length demand) A) (obj_var A) 1
         | Failed \<Rightarrow> NoSolutionFound
         | LimitReached \<Rightarrow> NoSolutionFound)
      else Raised TypeError)"
  by (simp add: optimize_shifts_def second_search_def SolutionCount_def length_s_flat
      split: outcome.splits)

lemma optimize_shifts_Solved:
  assumes "optimize_shifts t1 t2 demand drivers = Solved R obj c"
  obtains A where
    "R = rows (nat drivers) (length demand) A" "obj = obj_var A" "c = 1"
    "complete (nat drivers * length demand) A"
    "constraints demand (nat drivers) A"
    "\<forall>B. complete (nat drivers * length demand) B \<and> constraints demand (nat drivers) B \<longrightarrow> lex_le A B"
    "list_all int64 demand"
proof -
  obtain r t' where f: "first_solution (constraints demand (nat drivers)) (nat drivers * length demand) [] t2 = (r, t')"
    by force
  with assms obtain A where r: "r = Solution A" and R: "R = rows (nat drivers) (length demand) A"
     and o: "obj = obj_var A" and c: "c = 1" and d: "list_all int64 demand"
    by (auto simp: optimize_shifts_eq split: outcome.splits if_splits)
  from first_solution_Solution[OF f[unfolded r]] have
    "complete (nat drivers * length demand) A" "constraints demand (nat drivers) A"
    "\<forall>B. complete (nat drivers * length demand) B \<and> constraints demand (nat drivers) B \<longrightarrow> lex_le A B"
    by auto
  with R o c d that show thesis by blast
qed

lemma complete_length: "complete k A \<Longrightarrow> length A = k"
  by (simp add: complete_def)

lemma complete_rows:
  assumes "complete (n * s) A" "r \<in> set (rows n s A)"
  shows "length r = s \<and> set r \<subseteq> {0, 1}"
proof -
  from assms(2) obtain j where j: "j < n" and r: "r = map (\<lambda>i. shifts s A j i) [0..<s]"
    by (auto simp: rows_def)
  have "\<forall>i<s. shifts s A j i = 0 \<or> shifts s A j i = 1"
  proof (intro allI impI)
    fix i assume "i < s"
    then have "j * s + i < Suc j * s" by simp
    also have "\<dots> \<le> n * s" using j by (intro mult_le_mono1) simp
    finally have "j * s + i < n * s" .
    from complete_nth[OF assms(1) this]
    show "shifts s A j i = 0 \<or> shifts s A j i = 1" by (simp add: shifts_def)
  qed
  with r show ?thesis by auto
qed

lemma first_solution_determined:
  assumes "2 ^ Suc k \<le> t" and "2 ^ Suc k \<le> t'"
  shows "fst (first_solution ok k pre t) = fst (first_solution ok k pre t')"
proof -
  have "2 ^ Suc k + 0 \<le> 2 ^ Suc k + (1::nat)" by simp
  from first_solution_enough_time[OF this, of ok pre] obtain r u where
    f: "first_solution ok k pre (2 ^ Suc k) = (r, u)" and r: "r \<noteq> LimitReached"
    by blast
  have "fst (first_solution ok k pre (2 ^ Suc k + d)) = r" for d
    using first_solution_more_time[OF f r, of d] by simp
  from this[of "t - 2 ^ Suc k"] this[of "t' - 2 ^ Suc k"] assms show ?thesis by simp
qed

lemma sum_list_zeros: "\<forall>x\<in>set xs. x = (0::int) \<Longrightarrow> sum_list xs = 0"
  by (induction xs) simp_all

lemma run_least: "optimize_shifts 600 300 [0, 1, 0, 0, 0, 0, 0, 1] 1 = Solved [[0, 1, 1, 1, 1, 1, 1, 1]] 7 1"
  by code_simp

lemma run_zero_demand: "optimize_shifts 0 40 [0, 0, 0, 0] 1 = Solved [[1, 1, 1, 1]] 4 1"
  by code_simp




section \<open>Properties of the returned schedule\<close>

text \<open>
  C1. For every valid input (a positive driver count, a non-empty demand of
  non-negative integers), the assignment of a \<open>Solved\<close> result is a
  \<open>drivers \<times> slots\<close> matrix of 0/1 values that satisfies the three posted constraint
  families: every slot \<open>i\<close> has at least \<open>demand[i]\<close> drivers, every row sum lies
  between \<open>min_h = 4\<close> and \<open>max_h = 10\<close>, and in every row each window
  \<open>(i, i+1, i+2)\<close> and each strided window \<open>(i, i+2, i+4)\<close> has its first two or its
  last two values equal.
\<close>

theorem solved_satisfies_constraints:
  assumes "optimize_shifts t1 t2 demand drivers = Solved R obj c"
    and "0 < drivers" and "demand \<noteq> []" and "\<forall>d\<in>set demand. 0 \<le> d"
  shows "(length R = nat drivers \<and> (\<forall>r\<in>set R. length r = length demand \<and> set r \<subseteq> {0, 1}))
    \<and> (\<forall>i<length demand. demand ! i \<le> sum_list (map (\<lambda>j. R ! j ! i) [0..<nat drivers]))
    \<and> (\<forall>j<nat drivers. 4 \<le> sum_list (R ! j) \<and> sum_list (R ! j) \<le> 10)
    \<and> (\<forall>j<nat drivers. \<forall>i. i + 2 < length demand \<longrightarrow>
           R ! j ! i = R ! j ! (i + 1) \<or> R ! j ! (i + 1) = R ! j ! (i + 2))
    \<and> (\<forall>j<nat drivers. \<forall>i. i + 4 < length demand \<longrightarrow>
           R ! j ! i = R ! j ! (i + 2) \<or> R ! j ! (i + 2) = R ! j ! (i + 4))"
proof -
  let ?n = "nat drivers" and ?s = "length demand"
  from assms(1) obtain A where R: "R = rows ?n ?s A" and A: "complete (?n * ?s) A"
    and ok: "constraints demand ?n A"
    by (rule optimize_shifts_Solved)
  have shape: "length R = nat drivers \<and> (\<forall>r\<in>set R. length r = length demand \<and> set r \<subseteq> {0, 1})"
    using complete_rows[OF A] by (simp add: R length_rows)
  have cover: "\<forall>i<?s. demand ! i \<le> sum_list (map (\<lambda>j. R ! j ! i) [0..<?n])"
  proof (intro allI impI)
    fix i assume i: "i < ?s"
    have eq: "map (\<lambda>j. R ! j ! i) [0..<?n] = map (\<lambda>j. shifts ?s A j i) [0..<?n]"
      using i by (simp add: R rows_nth)
    from ok i have "demand ! i \<le> sum_list (map (\<lambda>j. shifts ?s A j i) [0..<?n])"
      by (simp add: constraints_def demand_constraint_def list_all_iff)
    then show "demand ! i \<le> sum_list (map (\<lambda>j. R ! j ! i) [0..<?n])"
      by (simp only: eq)
  qed
  have hours: "\<forall>j<?n. 4 \<le> sum_list (R ! j) \<and> sum_list (R ! j) \<le> 10"
    using ok
    by (simp add: constraints_def duration_constraint_def list_all_iff R rows_def min_h_def max_h_def)
  have w3: "\<forall>j<?n. \<forall>i. i + 2 < ?s \<longrightarrow>
      R ! j ! i = R ! j ! (i + 1) \<or> R ! j ! (i + 1) = R ! j ! (i + 2)"
  proof (intro allI impI)
    fix j i assume j: "j < ?n" and i: "i + 2 < ?s"
    then have "i < ?s - 2" by simp
    with ok j have "window (shifts ?s A j i) (shifts ?s A j (i + 1)) (shifts ?s A j (i + 2))"
      by (simp add: constraints_def consecutive_constraint_def list_all_iff)
    with j i show "R ! j ! i = R ! j ! (i + 1) \<or> R ! j ! (i + 1) = R ! j ! (i + 2)"
      by (simp add: R rows_nth window_iff)
  qed
  have w5: "\<forall>j<?n. \<forall>i. i + 4 < ?s \<longrightarrow>
      R ! j ! i = R ! j ! (i + 2) \<or> R ! j ! (i + 2) = R ! j ! (i + 4)"
  proof (intro allI impI)
    fix j i assume j: "j < ?n" and i: "i + 4 < ?s"
    then have "i < ?s - 4" by simp
    with ok j have "window (shifts ?s A j i) (shifts ?s A j (i + 2)) (shifts ?s A j (i + 4))"
      by (simp add: constraints_def consecutive_constraint_def list_all_iff)
    with j i show "R ! j ! i = R ! j ! (i + 2) \<or> R ! j ! (i + 2) = R ! j ! (i + 4)"
      by (simp add: R rows_nth window_iff)
  qed
  from shape cover hours w3 w5 show ?thesis by blast
qed

lemma run_four_slots: "optimize_shifts 0 40 [1, 1, 1, 1] 1 = Solved [[1, 1, 1, 1]] 4 1"
  by code_simp

theorem solved_satisfies_constraints_witness:
  "optimize_shifts 0 40 [1, 1, 1, 1] 1 = Solved [[1, 1, 1, 1]] 4 1
   \<and> (4::int) \<le> sum_list ([[1, 1, 1, 1]] ! 0) \<and> sum_list ([[1, 1, 1, 1]] ! 0) \<le> (10::int)
   \<and> ([1, 1, 1, 1] ! 2 :: int) \<le> sum_list (map (\<lambda>j. [[1, 1, 1, 1]] ! j ! 2) [0..<nat 1])"
proof -
  have v: "(0::int) < 1" "[1, 1, 1, 1] \<noteq> ([]::int list)" "\<forall>d\<in>set [1, 1, 1, 1]. (0::int) \<le> d"
    by simp_all
  from solved_satisfies_constraints[OF run_four_slots v] run_four_slots
  show ?thesis by simp
qed

text \<open>
  C4. The assignment of a \<open>Solved\<close> result, read row by row, is a feasible complete
  assignment and is the least one in the order of the search (variables in row-major
  order, value 0 before value 1): it is the first feasible leaf of the depth-first
  search of the second \<open>Solve\<close>, which has no objective monitor. Nothing the first,
  minimizing search did changes it.
\<close>

theorem solved_is_first_in_search_order:
  assumes "optimize_shifts t1 t2 demand drivers = Solved R obj c"
  shows "complete (nat drivers * length demand) (concat R)
    \<and> constraints demand (nat drivers) (concat R)
    \<and> (\<forall>B. complete (nat drivers * length demand) B \<and> constraints demand (nat drivers) B
          \<longrightarrow> lex_le (concat R) B)
    \<and> (\<forall>t1'. optimize_shifts t1' t2 demand drivers = Solved R obj c)"
proof -
  from assms obtain A where R: "R = rows (nat drivers) (length demand) A"
    and A: "complete (nat drivers * length demand) A"
    and ok: "constraints demand (nat drivers) A"
    and least: "\<forall>B. complete (nat drivers * length demand) B \<and>
                  constraints demand (nat drivers) B \<longrightarrow> lex_le A B"
    by (rule optimize_shifts_Solved)
  have c: "concat R = A" using concat_rows[OF complete_length[OF A]] by (simp add: R)
  have "optimize_shifts t1' t2 demand drivers = Solved R obj c" for t1'
    using assms by (simp add: optimize_shifts_eq)
  with A ok least c show ?thesis by simp
qed

theorem solved_is_first_in_search_order_witness:
  "optimize_shifts 600 300 [0, 1, 0, 0, 0, 0, 0, 1] 1 = Solved [[0, 1, 1, 1, 1, 1, 1, 1]] 7 1
   \<and> complete (nat 1 * length [0, 1, 0, 0, 0, 0, 0, 1 :: int]) [1, 1, 0, 0, 0, 0, 1, 1]
   \<and> constraints [0, 1, 0, 0, 0, 0, 0, 1] (nat 1) [1, 1, 0, 0, 0, 0, 1, 1]
   \<and> lex_le (concat [[0, 1, 1, 1, 1, 1, 1, 1]]) [1, 1, 0, 0, 0, 0, 1, 1]
   \<and> optimize_shifts 0 300 [0, 1, 0, 0, 0, 0, 0, 1] 1 = Solved [[0, 1, 1, 1, 1, 1, 1, 1]] 7 1"
proof -
  have B: "complete (nat 1 * length [0, 1, 0, 0, 0, 0, 0, 1 :: int]) [1, 1, 0, 0, 0, 0, 1, 1]"
    by (simp add: complete_def)
  have okB: "constraints [0, 1, 0, 0, 0, 0, 0, 1] (nat 1) [1, 1, 0, 0, 0, 0, 1, 1]"
    by code_simp
  from solved_is_first_in_search_order[OF run_least] B okB run_least
  show ?thesis by blast
qed

text \<open>
  C5. The objective value of a \<open>Solved\<close> result is the sum of all entries of the
  reported matrix: the sum of its row sums, which is the sum of its entries.
\<close>

theorem objective_is_matrix_sum:
  assumes "optimize_shifts t1 t2 demand drivers = Solved R obj c"
  shows "obj = sum_list (map sum_list R) \<and> obj = sum_list (concat R)"
proof -
  from assms obtain A where R: "R = rows (nat drivers) (length demand) A"
    and A: "complete (nat drivers * length demand) A" and o: "obj = obj_var A"
    by (rule optimize_shifts_Solved)
  from sum_rows[OF complete_length[OF A]] concat_rows[OF complete_length[OF A]] R o
  show ?thesis by (simp add: obj_var_def)
qed

theorem objective_is_matrix_sum_witness:
  "optimize_shifts 600 300 [0, 1, 0, 0, 0, 0, 0, 1] 1 = Solved [[0, 1, 1, 1, 1, 1, 1, 1]] 7 1
   \<and> (7::int) = sum_list (map sum_list [[0, 1, 1, 1, 1, 1, 1, 1]])"
  using objective_is_matrix_sum[OF run_least] run_least by blast

text \<open>
  C10. With at least one driver, every feasible complete assignment has objective value
  at least \<open>4 * drivers\<close>, whatever the demand; so has every \<open>Solved\<close> result, whose
  matrix therefore has a non-zero entry, also when the demand is all zero.
\<close>

theorem min_hours_bound:
  assumes "1 \<le> drivers"
  shows "(\<forall>B. length B = nat drivers * length demand \<and> constraints demand (nat drivers) B
            \<longrightarrow> 4 * drivers \<le> obj_var B)
    \<and> (\<forall>t1 t2 R obj c. optimize_shifts t1 t2 demand drivers = Solved R obj c
            \<longrightarrow> 4 * drivers \<le> obj \<and> (\<exists>r\<in>set R. \<exists>x\<in>set r. x \<noteq> 0))"
proof -
  have n: "int (nat drivers) = drivers" using assms by simp
  have bound: "4 * drivers \<le> obj_var B"
    if "length B = nat drivers * length demand" "constraints demand (nat drivers) B" for B
  proof -
    from that(2) have "duration_constraint (length demand) (nat drivers) B"
      by (simp add: constraints_def)
    from duration_sum[OF this that(1)] n show ?thesis by (simp add: min_h_def mult.commute)
  qed
  have run: "4 * drivers \<le> obj \<and> (\<exists>r\<in>set R. \<exists>x\<in>set r. x \<noteq> 0)"
    if "optimize_shifts t1 t2 demand drivers = Solved R obj c" for t1 t2 R obj c
  proof -
    from that obtain A where R: "R = rows (nat drivers) (length demand) A"
      and A: "complete (nat drivers * length demand) A" and o: "obj = obj_var A"
      and ok: "constraints demand (nat drivers) A"
      by (rule optimize_shifts_Solved)
    from bound[OF complete_length[OF A] ok] o have b: "4 * drivers \<le> obj" by simp
    have s: "obj = sum_list (map sum_list R)"
      using sum_rows[OF complete_length[OF A]] R o by (simp add: obj_var_def)
    have "\<exists>r\<in>set R. \<exists>x\<in>set r. x \<noteq> 0"
    proof (rule ccontr)
      assume "\<not> (\<exists>r\<in>set R. \<exists>x\<in>set r. x \<noteq> 0)"
      then have "\<forall>y\<in>set (map sum_list R). y = 0" by (auto intro: sum_list_zeros)
      then have "sum_list (map sum_list R) = 0" by (rule sum_list_zeros)
      with s b assms show False by simp
    qed
    with b show ?thesis by simp
  qed
  from bound run show ?thesis by blast
qed

theorem min_hours_bound_witness:
  "(1::int) \<le> 1
   \<and> optimize_shifts 0 40 [0, 0, 0, 0] 1 = Solved [[1, 1, 1, 1]] 4 1
   \<and> 4 * (1::int) \<le> 4 \<and> (\<exists>r\<in>set [[1, 1, 1, 1 :: int]]. \<exists>x\<in>set r. x \<noteq> 0)"
proof -
  have h: "(1::int) \<le> 1" by simp
  from min_hours_bound[OF h, of "[0, 0, 0, 0]"] run_zero_demand
  show ?thesis by blast
qed

text \<open>
  C9. Two runs on the same demand and driver count, each with a time limit that lets
  the reporting search visit \<open>2 ^ (drivers * slots + 1)\<close> nodes, return the same result,
  hence the same objective value, whatever the limits of the two runs are beyond that.
\<close>

theorem same_result_with_enough_time:
  assumes "2 ^ Suc (nat drivers * length demand) \<le> t2"
    and "2 ^ Suc (nat drivers * length demand) \<le> t2'"
  shows "optimize_shifts t1 t2 demand drivers = optimize_shifts t1' t2' demand drivers"
  using first_solution_determined[OF assms] by (simp add: optimize_shifts_eq)

theorem same_result_with_enough_time_witness:
  "(2::nat) ^ Suc (nat 1 * length [1, 1, 1, 1 :: int]) \<le> 32
   \<and> (2::nat) ^ Suc (nat 1 * length [1, 1, 1, 1 :: int]) \<le> 40
   \<and> optimize_shifts 0 32 [1, 1, 1, 1] 1 = optimize_shifts 5 40 [1, 1, 1, 1] 1"
proof -
  have a: "(2::nat) ^ Suc (nat 1 * length [1, 1, 1, 1 :: int]) \<le> 32" by simp
  have b: "(2::nat) ^ Suc (nat 1 * length [1, 1, 1, 1 :: int]) \<le> 40" by simp
  from same_result_with_enough_time[OF a b] a b show ?thesis by blast
qed

section \<open>Inputs that are not validated\<close>




section \<open>What the collector reports\<close>

text \<open>
  C6, as stated, fails. On the demand \<open>[0, 1, 0, 0, 0, 0, 0, 1]\<close> with one driver the run
  visits two distinct feasible complete assignments (the minimizing search accepts
  \<open>[0,1,1,1,1,1,1,1]\<close>, then the cheaper \<open>[1,1,0,0,0,0,1,1]\<close>), and reports a solution
  count of 1.
\<close>

theorem count_is_not_number_visited:
  "solution_count (optimize_shifts 600 300 [0, 1, 0, 0, 0, 0, 0, 1] 1) = 1
   \<and> length (remdups (visited 600 300 [0, 1, 0, 0, 0, 0, 0, 1] 1)) = 2"
  by code_simp

text \<open>
  C6, amended. The solution count of a \<open>Solved\<close> result is always 1, the number of
  solutions a first-solution collector stores; the number of distinct feasible
  complete assignments the run visited is at least that.
\<close>

theorem count_is_one:
  assumes "optimize_shifts t1 t2 demand drivers = Solved R obj c"
  shows "c = 1 \<and> c \<le> length (remdups (visited t1 t2 demand drivers))"
proof -
  from assms obtain A where c: "c = 1" by (rule optimize_shifts_Solved)
  from assms have "visited t1 t2 demand drivers \<noteq> []"
    by (auto simp: visited_def optimize_shifts_def
        split: prod.splits bool.splits option.splits if_splits)
  then have "remdups (visited t1 t2 demand drivers) \<noteq> []" by simp
  then have "1 \<le> length (remdups (visited t1 t2 demand drivers))"
    by (cases "remdups (visited t1 t2 demand drivers)") simp_all
  with c show ?thesis by simp
qed

theorem count_is_one_witness:
  "optimize_shifts 600 300 [0, 1, 0, 0, 0, 0, 0, 1] 1 = Solved [[0, 1, 1, 1, 1, 1, 1, 1]] 7 1
   \<and> (1::nat) \<le> length (remdups (visited 600 300 [0, 1, 0, 0, 0, 0, 0, 1] 1))"
  using count_is_one[OF run_least] run_least by blast

text \<open>
  C2. The claim is that the reported objective value is the minimum over the feasible
  assignments found during the run. On the demand \<open>[0, 1, 0, 0, 0, 0, 0, 1]\<close> with one
  driver the run reports 7, the objective of the first solution in search order, although
  its minimizing search has found an assignment of objective 4.
\<close>

theorem reported_objective_not_minimum:
  "optimize_shifts 600 300 [0, 1, 0, 0, 0, 0, 0, 1] 1 = Solved [[0, 1, 1, 1, 1, 1, 1, 1]] 7 1
   \<and> visited 600 300 [0, 1, 0, 0, 0, 0, 0, 1] 1
       = [[0, 1, 1, 1, 1, 1, 1, 1], [1, 1, 0, 0, 0, 0, 1, 1], [0, 1, 1, 1, 1, 1, 1, 1]]
   \<and> obj_var [1, 1, 0, 0, 0, 0, 1, 1] = 4"
  by code_simp

text \<open>
  C3. The claim is that every driver works one unbroken shift. On the demand
  \<open>[1, 0, 0, 0, 0, 0, 0, 1]\<close> with one driver the returned row is
  \<open>[1, 0, 0, 0, 0, 1, 1, 1]\<close>: two blocks of work with a gap of four slots, which both
  window rules accept.
\<close>

theorem two_shifts_in_a_row:
  "optimize_shifts 600 300 [1, 0, 0, 0, 0, 0, 0, 1] 1 = Solved [[1, 0, 0, 0, 0, 1, 1, 1]] 4 1
   \<and> blocks 0 [1, 0, 0, 0, 0, 1, 1, 1] = 2
   \<and> \<not> single_shift [1, 0, 0, 0, 0, 1, 1, 1]"
  by code_simp

section \<open>The scenario of eight slots and two drivers\<close>

text \<open>
  With enough time the search without objective returns the least feasible complete
  assignment, so a run is computed by exhibiting that assignment.
\<close>

lemma lex_le_antisym:
  "length xs = length ys \<Longrightarrow> lex_le xs ys \<Longrightarrow> lex_le ys xs \<Longrightarrow> xs = ys"
  by (induction xs ys rule: list_induct2) auto

lemma first_solution_least:
  assumes s: "complete k s" and ok: "ok (pre @ s)"
    and least: "\<forall>s'. complete k s' \<and> ok (pre @ s') \<longrightarrow> lex_le s s'"
    and t: "2 ^ Suc k \<le> t"
  shows "fst (first_solution ok k pre t) = Solution (pre @ s)"
proof -
  from t have "2 ^ Suc k + 0 \<le> t + 1" by simp
  from first_solution_enough_time[OF this, of ok pre] obtain r u where
    f: "first_solution ok k pre t = (r, u)" and r: "r \<noteq> LimitReached"
    by blast
  show ?thesis
  proof (cases r)
    case (Solution A)
    from first_solution_Solution[OF f[unfolded Solution]] obtain s' where
      s': "A = pre @ s'" "complete k s'" "ok A"
          "\<forall>u. complete k u \<and> ok (pre @ u) \<longrightarrow> lex_le s' u"
      by blast
    from s' s ok have "lex_le s' s" by blast
    moreover from least s' have "lex_le s s'" by blast
    moreover from s s' have "length s = length s'" by (simp add: complete_def)
    ultimately have "s = s'" by (intro lex_le_antisym)
    with f Solution s' show ?thesis by simp
  next
    case Failed
    from first_solution_Failed[OF f[unfolded Failed] s] ok show ?thesis by simp
  next
    case LimitReached
    with r show ?thesis by simp
  qed
qed

lemma upt8: "[0..<8] = [0, 1, 2, 3, 4, 5, 6, 7]"
  by (simp add: upt_rec)

lemma upt2: "[0..<2] = [0, 1]"
  by (simp add: upt_rec)

lemma facts16:
  assumes "constraints [1, 1, 1, 1, 1, 1, 1, 1] 2 [b0, b1, b2, b3, b4, b5, b6, b7, c0, c1, c2, c3, c4, c5, c6, c7]"
  shows "4 \<le> b0 + b1 + b2 + b3 + b4 + b5 + b6 + b7"
    and "1 \<le> b0 + c0" and "1 \<le> b1 + c1" and "1 \<le> b2 + c2" and "1 \<le> b3 + c3"
  using assms
  by (simp_all add: constraints_def demand_constraint_def duration_constraint_def shifts_def
      min_h_def upt8 upt2)

lemma list16:
  assumes "length (B :: int list) = 16"
  obtains b0 b1 b2 b3 b4 b5 b6 b7 c0 c1 c2 c3 c4 c5 c6 c7 where
    "B = [b0, b1, b2, b3, b4, b5, b6, b7, c0, c1, c2, c3, c4, c5, c6, c7]"
proof -
  from assms have "length B = Suc (Suc (Suc (Suc (Suc (Suc (Suc (Suc (Suc (Suc (Suc (Suc (Suc (Suc (Suc (Suc 0)))))))))))))))"
    by simp
  then show thesis using that by (auto simp: length_Suc_conv)
qed

text \<open>
  A row of eight slots that starts with four zeros needs its last four slots to reach
  four hours, and then the other driver must cover the first four slots.
\<close>

lemma lex_le_zeros:
  "length xs = length ys \<Longrightarrow> \<forall>x\<in>set xs. x = 0 \<Longrightarrow> \<forall>y\<in>set ys. 0 \<le> y \<Longrightarrow> lex_le xs ys"
  by (induction xs ys rule: list_induct2) auto

lemma least16:
  assumes B: "complete 16 B" and ok: "constraints [1, 1, 1, 1, 1, 1, 1, 1] 2 B"
  shows "lex_le [0, 0, 0, 0, 1, 1, 1, 1, 1, 1, 1, 1, 0, 0, 0, 0] B"
proof -
  from B have "length B = 16" by (simp add: complete_def)
  then obtain b0 b1 b2 b3 b4 b5 b6 b7 c0 c1 c2 c3 c4 c5 c6 c7 where
    Beq: "B = [b0, b1, b2, b3, b4, b5, b6, b7, c0, c1, c2, c3, c4, c5, c6, c7]"
    by (rule list16)
  from B have mem: "set B \<subseteq> {0, 1}" by (simp add: complete_def)
  have r: "x = 0 \<or> x = 1" if "x \<in> set B" for x
    using mem that by blast
  have bin: "b0 = 0 \<or> b0 = 1" "b1 = 0 \<or> b1 = 1" "b2 = 0 \<or> b2 = 1" "b3 = 0 \<or> b3 = 1"
    using r[of b0] r[of b1] r[of b2] r[of b3] by (simp_all add: Beq)
  have le: "b4 \<le> 1" "b5 \<le> 1" "b6 \<le> 1" "b7 \<le> 1"
    using r[of b4] r[of b5] r[of b6] r[of b7] by (simp_all add: Beq, linarith+)
  have le': "c0 \<le> 1" "c1 \<le> 1" "c2 \<le> 1" "c3 \<le> 1"
    using r[of c0] r[of c1] r[of c2] r[of c3] by (simp_all add: Beq, linarith+)
  have ge: "0 \<le> c4" "0 \<le> c5" "0 \<le> c6" "0 \<le> c7"
    using r[of c4] r[of c5] r[of c6] r[of c7] by (simp_all add: Beq, linarith+)
  note f = facts16[OF ok[unfolded Beq]]
  have tail: "lex_le [0, 0, 0, 0] [c4, c5, c6, c7]"
    using ge by (intro lex_le_zeros) simp_all
  from bin consider
      (a) "b0 = 1"
    | (b) "b0 = 0" "b1 = 1"
    | (c) "b0 = 0" "b1 = 0" "b2 = 1"
    | (d) "b0 = 0" "b1 = 0" "b2 = 0" "b3 = 1"
    | (e) "b0 = 0" "b1 = 0" "b2 = 0" "b3 = 0"
    by blast
  then have "lex_le [0, 0, 0, 0, 1, 1, 1, 1, 1, 1, 1, 1, 0, 0, 0, 0]
          [b0, b1, b2, b3, b4, b5, b6, b7, c0, c1, c2, c3, c4, c5, c6, c7]"
  proof cases
    case a
    then show ?thesis by simp
  next
    case b
    then show ?thesis by simp
  next
    case c
    then show ?thesis by simp
  next
    case d
    then show ?thesis by simp
  next
    case e
    from e f(1) le have b: "b4 = 1" "b5 = 1" "b6 = 1" "b7 = 1" by linarith+
    from e f(2-5) le' have c: "c0 = 1" "c1 = 1" "c2 = 1" "c3 = 1" by linarith+
    from tail show ?thesis by (simp add: e b c)
  qed
  then show ?thesis by (simp only: Beq)
qed

lemma ok16: "constraints [1, 1, 1, 1, 1, 1, 1, 1] 2 [0, 0, 0, 0, 1, 1, 1, 1, 1, 1, 1, 1, 0, 0, 0, 0]"
  by code_simp

lemma rows16: "rows 2 8 [0, 0, 0, 0, 1, 1, 1, 1, 1, 1, 1, 1, 0, 0, 0, 0]
    = [[0, 0, 0, 0, 1, 1, 1, 1], [1, 1, 1, 1, 0, 0, 0, 0]]"
  by code_simp

lemma run16:
  assumes "2 ^ 17 \<le> t2"
  shows "optimize_shifts t1 t2 [1, 1, 1, 1, 1, 1, 1, 1] 2
    = Solved [[0, 0, 0, 0, 1, 1, 1, 1], [1, 1, 1, 1, 0, 0, 0, 0]] 8 1"
proof -
  let ?A = "[0, 0, 0, 0, 1, 1, 1, 1, 1, 1, 1, 1, 0, 0, 0, 0] :: int list"
  have c: "complete 16 ?A" by (simp add: complete_def)
  have l: "\<forall>s'. complete 16 s' \<and> constraints [1, 1, 1, 1, 1, 1, 1, 1] 2 ([] @ s') \<longrightarrow> lex_le ?A s'"
    using least16 by simp
  have o: "constraints [1, 1, 1, 1, 1, 1, 1, 1] 2 ([] @ ?A)" using ok16 by simp
  from assms have t: "2 ^ Suc 16 \<le> t2" by simp
  from first_solution_least[OF c o l t]
  have fs: "fst (first_solution (constraints [1, 1, 1, 1, 1, 1, 1, 1] 2) 16 [] t2) = Solution ?A"
    by simp
  have k: "nat (2::int) = 2" "length [1, 1, 1, 1, 1, 1, 1, 1 :: int] = 8"
    by simp_all
  show ?thesis
    unfolding optimize_shifts_eq k by (simp add: fs rows16 obj_var_def int64_def)
qed

text \<open>
  C8. On the demand \<open>[1,1,1,1,1,1,1,1]\<close> with two drivers, a run whose time limit lets
  the reporting search visit \<open>2 ^ 17\<close> nodes returns a \<open>Solved\<close> result: the first driver
  works slots 4 to 7 and the second slots 0 to 3. Each row is one block of work of
  between 4 and 8 slots, every slot has at least one driver, and the objective value
  is 8: at most 16, equal to the total demand, and no feasible assignment has less.
\<close>

theorem eight_slots_two_drivers:
  assumes "2 ^ 17 \<le> t2"
  shows "\<exists>R obj c.
      optimize_shifts t1 t2 [1, 1, 1, 1, 1, 1, 1, 1] 2 = Solved R obj c
    \<and> R = [[0, 0, 0, 0, 1, 1, 1, 1], [1, 1, 1, 1, 0, 0, 0, 0]]
    \<and> list_all (\<lambda>r. single_shift r \<and> 4 \<le> sum_list r \<and> sum_list r \<le> 8) R
    \<and> list_all (\<lambda>i. 1 \<le> sum_list (map (\<lambda>j. R ! j ! i) [0..<2])) [0..<8]
    \<and> obj \<le> 16
    \<and> obj = sum_list [1, 1, 1, 1, 1, 1, 1, 1]
    \<and> (\<forall>B. length B = 16 \<and> constraints [1, 1, 1, 1, 1, 1, 1, 1] 2 B \<longrightarrow> obj \<le> obj_var B)"
proof -
  let ?R = "[[0, 0, 0, 0, 1, 1, 1, 1], [1, 1, 1, 1, 0, 0, 0, 0]] :: int list list"
  have run: "optimize_shifts t1 t2 [1, 1, 1, 1, 1, 1, 1, 1] 2 = Solved ?R 8 1"
    using assms by (rule run16)
  have blk: "list_all (\<lambda>r. single_shift r \<and> 4 \<le> sum_list r \<and> sum_list r \<le> 8) ?R"
    by (simp add: single_shift_def)
  have cover: "list_all (\<lambda>i. 1 \<le> sum_list (map (\<lambda>j. ?R ! j ! i) [0..<2])) [0..<8]"
    by (simp add: upt8 upt2)
  have len: "length [1, 1, 1, 1, 1, 1, 1, 1 :: int] = 8" by simp
  have least: "\<forall>B. length B = 16 \<and> constraints [1, 1, 1, 1, 1, 1, 1, 1] 2 B \<longrightarrow> 8 \<le> obj_var B"
  proof (intro allI impI)
    fix B assume B: "length B = 16 \<and> constraints [1, 1, 1, 1, 1, 1, 1, 1] 2 B"
    then have "duration_constraint (length [1, 1, 1, 1, 1, 1, 1, 1 :: int]) 2 B"
      by (simp only: constraints_def)
    then have d: "duration_constraint 8 2 B" by (simp only: len)
    from B have "length B = 2 * 8" by simp
    from duration_sum[OF d this] show "8 \<le> obj_var B" by (simp add: min_h_def)
  qed
  show ?thesis
    apply (intro exI conjI)
          apply (rule run)
         apply (rule refl)
        apply (rule blk)
       apply (rule cover)
      apply simp
     apply simp
    apply (rule least)
    done
qed

theorem eight_slots_two_drivers_witness:
  "(2::nat) ^ 17 \<le> 131072
   \<and> assignment (optimize_shifts 600 131072 [1, 1, 1, 1, 1, 1, 1, 1] 2)
       = [[0, 0, 0, 0, 1, 1, 1, 1], [1, 1, 1, 1, 0, 0, 0, 0]]
   \<and> objective_value (optimize_shifts 600 131072 [1, 1, 1, 1, 1, 1, 1, 1] 2) = 8"
proof -
  have h: "(2::nat) ^ 17 \<le> 131072" by simp
  from eight_slots_two_drivers[OF h, of 600] obtain R obj c where
    "optimize_shifts 600 131072 [1, 1, 1, 1, 1, 1, 1, 1] 2 = Solved R obj c"
    "R = [[0, 0, 0, 0, 1, 1, 1, 1], [1, 1, 1, 1, 0, 0, 0, 0]]"
    "obj = sum_list [1, 1, 1, 1, 1, 1, 1, 1]"
    by blast
  with h show ?thesis by simp
qed

end
